theory Spec2Isabelle
  imports Complex_Main "HOL-Library.Multiset"
begin

section \<open>JavaScript strings and the regular expression of the number test\<close>

text \<open>
  The console is the React component \<open>App\<close> of \<open>scylla-client/src/App.tsx\<close>. A JavaScript
  string is modelled as a \<^typ>\<open>string\<close>; one \<^typ>\<open>char\<close> stands for one code unit below 256.
  \<open>null\<close> and \<open>undefined\<close> are \<^const>\<open>None\<close>.
\<close>

definition quote :: char where
  "quote = CHR 0x27"

definition is_digit :: "char \<Rightarrow> bool" where
  "is_digit c = (c \<in> set ''0123456789'')"

text \<open>The white space and line terminators that \<open>String.prototype.trim\<close> strips, below 256.\<close>

definition is_space :: "char \<Rightarrow> bool" where
  "is_space c =
     (c \<in> set [CHR 0x09, CHR 0x0A, CHR 0x0B, CHR 0x0C, CHR 0x0D, CHR 0x20, CHR 0xA0])"

definition trim :: "string \<Rightarrow> string" where
  "trim s = rev (dropWhile is_space (rev (dropWhile is_space s)))"

text \<open>
  Regular expressions, as far as \<open>/^-?\d+(\.\d+)?$/\<close> needs them. The pattern is anchored
  at both ends and has no flags, so \<open>test\<close> asks whether the whole string is in the language:
  \<open>test\<close> decides that by derivatives, \<open>accepts\<close> is the language itself.
\<close>

datatype regex = Never | Empty | Lit char | DigitClass
  | Or regex regex | Then regex regex | Many regex

definition Opt :: "regex \<Rightarrow> regex" where
  "Opt r = Or r Empty"

definition Plus :: "regex \<Rightarrow> regex" where
  "Plus r = Then r (Many r)"

fun nullable :: "regex \<Rightarrow> bool" where
  "nullable Never = False"
| "nullable Empty = True"
| "nullable (Lit c) = False"
| "nullable DigitClass = False"
| "nullable (Or r s) = (nullable r \<or> nullable s)"
| "nullable (Then r s) = (nullable r \<and> nullable s)"
| "nullable (Many r) = True"

fun deriv :: "char \<Rightarrow> regex \<Rightarrow> regex" where
  "deriv c Never = Never"
| "deriv c Empty = Never"
| "deriv c (Lit d) = (if c = d then Empty else Never)"
| "deriv c DigitClass = (if is_digit c then Empty else Never)"
| "deriv c (Or r s) = Or (deriv c r) (deriv c s)"
| "deriv c (Then r s) =
     (if nullable r then Or (Then (deriv c r) s) (deriv c s) else Then (deriv c r) s)"
| "deriv c (Many r) = Then (deriv c r) (Many r)"

fun test :: "regex \<Rightarrow> string \<Rightarrow> bool" where
  "test r [] = nullable r"
| "test r (c # cs) = test (deriv c r) cs"

inductive accepts :: "regex \<Rightarrow> string \<Rightarrow> bool" where
  acc_Empty: "accepts Empty []"
| acc_Lit: "accepts (Lit c) [c]"
| acc_Digit: "is_digit c \<Longrightarrow> accepts DigitClass [c]"
| acc_OrL: "accepts r u \<Longrightarrow> accepts (Or r s) u"
| acc_OrR: "accepts s u \<Longrightarrow> accepts (Or r s) u"
| acc_Then: "accepts r u \<Longrightarrow> accepts s v \<Longrightarrow> accepts (Then r s) (u @ v)"
| acc_Many0: "accepts (Many r) []"
| acc_ManyS: "accepts r u \<Longrightarrow> accepts (Many r) v \<Longrightarrow> accepts (Many r) (u @ v)"

text \<open>\<open>/^-?\d+(\.\d+)?$/\<close>\<close>

definition number_re :: regex where
  "number_re =
     Then (Opt (Lit CHR ''-''))
       (Then (Plus DigitClass) (Opt (Then (Lit CHR ''.'') (Plus DigitClass))))"

section \<open>The filter compiler of \<open>fetchTableData\<close>\<close>

text \<open>\<open>const isNumber = /^-?\d+(\.\d+)?$/.test(filterValue.trim())\<close>\<close>

definition isNumber :: "string \<Rightarrow> bool" where
  "isNumber filterValue = test number_re (trim filterValue)"

text \<open>\<open>const quotedValue = isNumber ? filterValue : `'${filterValue}'`\<close>\<close>

definition quotedValue :: "string \<Rightarrow> string" where
  "quotedValue filterValue =
     (if isNumber filterValue then filterValue else [quote] @ filterValue @ [quote])"

text \<open>
  The two branches that assign \<open>whereClause\<close>: the \<open>LIKE\<close> pattern of \<open>CONTAINS\<close>, and
  column, operator and value separated by blanks for every other operator.
\<close>

definition compile_filter :: "string \<Rightarrow> string \<Rightarrow> string \<Rightarrow> string" where
  "compile_filter filterColumn filterOperator filterValue =
     (if filterOperator = ''CONTAINS''
      then filterColumn @ '' LIKE '' @ [quote] @ ''%'' @ filterValue @ ''%'' @ [quote]
      else filterColumn @ '' '' @ filterOperator @ '' '' @ quotedValue filterValue)"

subsection \<open>What the specification asks of the compiler\<close>

text \<open>
  The specification's grammar of a Numeric value, read off its words: an optional leading
  minus, digits, and optionally a decimal point and digits.
\<close>

definition numeric_grammar :: "string \<Rightarrow> bool" where
  "numeric_grammar v =
     (let unsigned = (if take 1 v = ''-'' then drop 1 v else v);
          whole = takeWhile is_digit unsigned;
          rest = dropWhile is_digit unsigned
      in whole \<noteq> [] \<and>
         (rest = [] \<or>
          (take 1 rest = ''.'' \<and> drop 1 rest \<noteq> [] \<and> list_all is_digit (drop 1 rest))))"

text \<open>The specification's quoting: every embedded quote character is doubled.\<close>

definition escape_quotes :: "string \<Rightarrow> string" where
  "escape_quotes v = concat (map (\<lambda>c. if c = quote then [quote, quote] else [c]) v)"

definition spec_quoted :: "string \<Rightarrow> string" where
  "spec_quoted v = [quote] @ escape_quotes v @ [quote]"

text \<open>
  Parsing a quoted literal back: after the opening quote a doubled quote stands for one
  quote character, a single quote closes the literal, and nothing may follow it.
\<close>

fun read_body :: "string \<Rightarrow> string option" where
  "read_body [] = None"
| "read_body [c] = (if c = quote then Some [] else None)"
| "read_body (c # d # cs) =
     (if c = quote
      then (if d = quote then map_option ((#) quote) (read_body cs) else None)
      else map_option ((#) c) (read_body (d # cs)))"

fun parse_literal :: "string \<Rightarrow> string option" where
  "parse_literal [] = None"
| "parse_literal (c # cs) = (if c = quote then read_body cs else None)"

section \<open>Component state, requests and responses\<close>

record TableColumn =
  column_name :: string
  column_type :: string
  column_kind :: string

record TableSchema =
  keyspace :: string
  table :: string
  columns :: "TableColumn list"
  partition_keys :: "string list"
  clustering_keys :: "string list"

record 'row PaginatedData =
  rows :: "'row list"
  page_size :: int
  has_more :: bool
  next_page_state :: "string option"
  count :: int

datatype direction = ASC | DESC

text \<open>
  The \<open>useState\<close> cells of \<open>App\<close> that the query and paging code reads or writes. The cells
  of the login form, the tree view, the query box and the row editor are left out.
\<close>

record 'row app_state =
  selectedTable :: "TableSchema option"
  tableData :: "'row PaginatedData option"
  pageSize :: int
  currentPageState :: "string option"
  pageHistory :: "string list"
  rowCount :: "int option"
  error :: "string option"
  filterColumn :: string
  filterOperator :: string
  filterValue :: string
  queryLimit :: int
  sortColumn :: string
  sortDirection :: direction

text \<open>The query parameters of the rows request and of the count request.\<close>

record params =
  param_page_size :: int
  param_page_state :: "string option"
  param_where_clause :: "string option"
  param_allow_filtering :: "bool option"

record count_params =
  count_where_clause :: "string option"
  count_allow_filtering :: "bool option"

record request =
  req_keyspace :: string
  req_table :: string
  req_params :: params
  req_countParams :: count_params

text \<open>
  \<open>Promise.all\<close> of the schema, rows and count requests: either all three answer, or the
  \<open>catch\<close> branch gets a message.
\<close>

datatype 'row response =
  Failed string
| Loaded TableSchema "'row PaginatedData" int

text \<open>A string or \<open>null\<close> in a boolean position: \<open>null\<close> and \<open>''\<close> are falsy.\<close>

fun truthy :: "string option \<Rightarrow> bool" where
  "truthy None = False"
| "truthy (Some t) = (t \<noteq> [])"

text \<open>\<open>if (applyFilters && filterColumn && filterValue)\<close>\<close>

definition filter_active :: "'row app_state \<Rightarrow> bool \<Rightarrow> bool" where
  "filter_active c applyFilters =
     (applyFilters \<and> filterColumn c \<noteq> [] \<and> filterValue c \<noteq> [])"

text \<open>\<open>let whereClause = ''\<close>, then assigned when the filter is applied.\<close>

definition whereClause :: "'row app_state \<Rightarrow> bool \<Rightarrow> string" where
  "whereClause c applyFilters =
     (if filter_active c applyFilters
      then compile_filter (filterColumn c) (filterOperator c) (filterValue c)
      else [])"

definition build_params :: "'row app_state \<Rightarrow> string option \<Rightarrow> bool \<Rightarrow> params" where
  "build_params c pageState applyFilters =
     \<lparr> param_page_size = min (pageSize c) (queryLimit c),
       param_page_state = (if truthy pageState then pageState else None),
       param_where_clause =
         (if filter_active c applyFilters then Some (whereClause c applyFilters) else None),
       param_allow_filtering = (if filter_active c applyFilters then Some True else None) \<rparr>"

text \<open>\<open>if (whereClause) { countParams.where_clause = ...; countParams.allow_filtering = true }\<close>\<close>

definition build_countParams :: "'row app_state \<Rightarrow> bool \<Rightarrow> count_params" where
  "build_countParams c applyFilters =
     (if whereClause c applyFilters \<noteq> []
      then \<lparr> count_where_clause = Some (whereClause c applyFilters),
             count_allow_filtering = Some True \<rparr>
      else \<lparr> count_where_clause = None, count_allow_filtering = None \<rparr>)"

definition build_request ::
  "'row app_state \<Rightarrow> string \<Rightarrow> string \<Rightarrow> string option \<Rightarrow> bool \<Rightarrow> request" where
  "build_request c ks tb pageState applyFilters =
     \<lparr> req_keyspace = ks, req_table = tb,
       req_params = build_params c pageState applyFilters,
       req_countParams = build_countParams c applyFilters \<rparr>"

text \<open>
  \<open>fetchTableData\<close>. The function is a closure of one render: it reads the state \<open>c\<close> of
  that render, whatever setters its caller ran before, and its own setters act on the
  pending state \<open>s\<close>. The result is the request it sends and the state after the answer.
\<close>

definition fetchTableData ::
  "'row app_state \<Rightarrow> 'row app_state \<Rightarrow> string \<Rightarrow> string \<Rightarrow> string option \<Rightarrow> bool
     \<Rightarrow> 'row response \<Rightarrow> request \<times> 'row app_state" where
  "fetchTableData c s ks tb pageState applyFilters resp =
     (build_request c ks tb pageState applyFilters,
      (case resp of
         Failed msg \<Rightarrow> s\<lparr>error := Some msg\<rparr>
       | Loaded schema data n \<Rightarrow>
           (let s1 = s\<lparr>error := None, selectedTable := Some schema, tableData := Some data,
                        rowCount := Some n, currentPageState := pageState\<rparr>
            in if \<not> truthy pageState \<and> \<not> applyFilters
               then s1\<lparr>filterColumn := [], filterOperator := ''='', filterValue := [],
                        sortColumn := [], sortDirection := ASC\<rparr>
               else s1)))"

section \<open>The event handlers\<close>

text \<open>
  Each handler takes the state of the render it was created in and the answer to the
  request it may send; it returns that request, if one is sent, and the next state.
\<close>

definition sends ::
  "request \<times> 'row app_state \<Rightarrow> request option \<times> 'row app_state" where
  "sends p = (Some (fst p), snd p)"

text \<open>The table button of the tree view: \<open>onClick={() => fetchTableData(keyspace, table)}\<close>.\<close>

definition selectTable ::
  "'row app_state \<Rightarrow> string \<Rightarrow> string \<Rightarrow> 'row response
     \<Rightarrow> request option \<times> 'row app_state" where
  "selectTable c ks tb resp = sends (fetchTableData c c ks tb None False resp)"

definition hasFilters :: "'row app_state \<Rightarrow> bool" where
  "hasFilters c = (filterColumn c \<noteq> [] \<and> filterValue c \<noteq> [])"

definition handleNextPage ::
  "'row app_state \<Rightarrow> 'row response \<Rightarrow> request option \<times> 'row app_state" where
  "handleNextPage c resp =
     (case (tableData c, selectedTable c) of
        (Some td, Some st) \<Rightarrow>
          if truthy (next_page_state td)
          then sends (fetchTableData c
                 (c\<lparr>pageHistory :=
                      pageHistory c @ [case currentPageState c of Some t \<Rightarrow> t | None \<Rightarrow> []]\<rparr>)
                 (keyspace st) (table st) (next_page_state td) (hasFilters c) resp)
          else (None, c)
      | _ \<Rightarrow> (None, c))"

definition handlePreviousPage ::
  "'row app_state \<Rightarrow> 'row response \<Rightarrow> request option \<times> 'row app_state" where
  "handlePreviousPage c resp =
     (case selectedTable c of
        Some st \<Rightarrow>
          if pageHistory c \<noteq> []
          then (let newHistory = butlast (pageHistory c);
                    prevState = (if last (pageHistory c) = [] then None
                                 else Some (last (pageHistory c)))
                in sends (fetchTableData c (c\<lparr>pageHistory := newHistory\<rparr>)
                     (keyspace st) (table st) prevState (hasFilters c) resp))
          else (None, c)
      | None \<Rightarrow> (None, c))"

definition handlePageSizeChange ::
  "'row app_state \<Rightarrow> int \<Rightarrow> 'row response \<Rightarrow> request option \<times> 'row app_state" where
  "handlePageSizeChange c newSize resp =
     (let s = c\<lparr>pageSize := newSize, pageHistory := []\<rparr>
      in case selectedTable c of
           Some st \<Rightarrow> sends (fetchTableData c s (keyspace st) (table st) None False resp)
         | None \<Rightarrow> (None, s))"

definition applyServerSideFilters ::
  "'row app_state \<Rightarrow> 'row response \<Rightarrow> request option \<times> 'row app_state" where
  "applyServerSideFilters c resp =
     (case selectedTable c of
        Some st \<Rightarrow>
          sends (fetchTableData c (c\<lparr>pageHistory := []\<rparr>)
            (keyspace st) (table st) None True resp)
      | None \<Rightarrow> (None, c))"

definition clearServerSideFilters ::
  "'row app_state \<Rightarrow> 'row response \<Rightarrow> request option \<times> 'row app_state" where
  "clearServerSideFilters c resp =
     (let s = c\<lparr>filterColumn := [], filterOperator := ''='', filterValue := [],
                sortColumn := [], sortDirection := ASC\<rparr>
      in case selectedTable c of
           Some st \<Rightarrow>
             sends (fetchTableData c (s\<lparr>pageHistory := []\<rparr>)
               (keyspace st) (table st) None False resp)
         | None \<Rightarrow> (None, s))"

text \<open>The initial values of the \<open>useState\<close> cells.\<close>

definition initial_state :: "'row app_state" where
  "initial_state =
     \<lparr> selectedTable = None, tableData = None, pageSize = 50, currentPageState = None,
       pageHistory = [], rowCount = None, error = None, filterColumn = [],
       filterOperator = ''='', filterValue = [], queryLimit = 1000, sortColumn = [],
       sortDirection = ASC \<rparr>"

section \<open>Sorting the loaded page\<close>







text \<open>
  What the language promises of \<open>Array.prototype.sort\<close>. A comparator is consistent on a
  list when it orders the elements: the two ways round agree, and not-greater is
  transitive. The result of \<open>sort\<close> is always a rearrangement of the list; for a consistent
  comparator it is sorted, and elements that compare equal keep their order. For any
  other comparator the order is left to the engine.
\<close>

definition consistent :: "('a \<Rightarrow> 'a \<Rightarrow> real) \<Rightarrow> 'a list \<Rightarrow> bool" where
  "consistent cmp xs =
     ((\<forall>a\<in>set xs. \<forall>b\<in>set xs. (cmp a b < 0 \<longleftrightarrow> 0 < cmp b a)) \<and>
      (\<forall>a\<in>set xs. \<forall>b\<in>set xs. \<forall>c\<in>set xs.
         cmp a b \<le> 0 \<and> cmp b c \<le> 0 \<longrightarrow> cmp a c \<le> 0))"

definition conforming :: "(('a \<Rightarrow> 'a \<Rightarrow> real) \<Rightarrow> 'a list \<Rightarrow> 'a list) \<Rightarrow> bool" where
  "conforming srt =
     (\<forall>cmp xs.
        mset (srt cmp xs) = mset xs \<and>
        (consistent cmp xs \<longrightarrow>
           sorted_wrt (\<lambda>a b. cmp a b \<le> 0) (srt cmp xs) \<and>
           (\<forall>k\<in>set xs. filter (\<lambda>b. cmp k b = 0) (srt cmp xs) = filter (\<lambda>b. cmp k b = 0) xs)))"

text \<open>
  One sort that conforms, for the examples: an element goes in front of the first element
  it does not compare greater than.
\<close>

fun place :: "('a \<Rightarrow> 'a \<Rightarrow> real) \<Rightarrow> 'a \<Rightarrow> 'a list \<Rightarrow> 'a list" where
  "place cmp x [] = [x]"
| "place cmp x (y # ys) = (if cmp x y \<le> 0 then x # y # ys else y # place cmp x ys)"

fun js_sort :: "('a \<Rightarrow> 'a \<Rightarrow> real) \<Rightarrow> 'a list \<Rightarrow> 'a list" where
  "js_sort cmp [] = []"
| "js_sort cmp (x # xs) = place cmp x (js_sort cmp xs)"


section \<open>Runs of the cursor\<close>

text \<open>
  \<open>n\<close> clicks on Next, then clicks on Previous; each click comes with the answer that its
  request gets.
\<close>

fun advances :: "'row app_state \<Rightarrow> 'row response list \<Rightarrow> 'row app_state" where
  "advances s [] = s"
| "advances s (r # rs) = advances (snd (handleNextPage s r)) rs"

fun retreats :: "'row app_state \<Rightarrow> 'row response list \<Rightarrow> 'row app_state" where
  "retreats s [] = s"
| "retreats s (r # rs) = retreats (snd (handlePreviousPage s r)) rs"

fun loaded :: "'row response \<Rightarrow> bool" where
  "loaded (Failed msg) = False"
| "loaded (Loaded schema data n) = True"

text \<open>The guard of \<open>handleNextPage\<close>: a table is selected and the page has a next token.\<close>

definition can_advance :: "'row app_state \<Rightarrow> bool" where
  "can_advance s =
     (selectedTable s \<noteq> None \<and>
      (case tableData s of None \<Rightarrow> False | Some td \<Rightarrow> truthy (next_page_state td)))"

text \<open>Every click on Next of the run passes the guard and gets its page.\<close>

fun all_advance :: "'row app_state \<Rightarrow> 'row response list \<Rightarrow> bool" where
  "all_advance s [] = True"
| "all_advance s (r # rs) =
     (can_advance s \<and> loaded r \<and> all_advance (snd (handleNextPage s r)) rs)"

text \<open>\<open>currentPageState || ''\<close> on the way into the history, \<open>pop() || null\<close> on the way out.\<close>

definition sentinel :: "string option \<Rightarrow> string" where
  "sentinel t = (case t of Some x \<Rightarrow> x | None \<Rightarrow> [])"

definition unsentinel :: "string \<Rightarrow> string option" where
  "unsentinel x = (if x = [] then None else Some x)"

text \<open>A browse: clicks on Next and Previous in any order; the requests it sends.\<close>

datatype nav = Next | Previous

fun click ::
  "'row app_state \<Rightarrow> nav \<Rightarrow> 'row response \<Rightarrow> request option \<times> 'row app_state" where
  "click c Next resp = handleNextPage c resp"
| "click c Previous resp = handlePreviousPage c resp"

fun navigate :: "'row app_state \<Rightarrow> (nav \<times> 'row response) list \<Rightarrow> request list" where
  "navigate c [] = []"
| "navigate c ((e, resp) # es) =
     (case fst (click c e resp) of None \<Rightarrow> [] | Some req \<Rightarrow> [req])
       @ navigate (snd (click c e resp)) es"

text \<open>\<open>disabled={pageHistory.length === 0}\<close> on the Previous button.\<close>

definition previous_disabled :: "'row app_state \<Rightarrow> bool" where
  "previous_disabled c = (pageHistory c = [])"

section \<open>The count estimator\<close>

record CountEstimate =
  estimate_value :: int
  exact :: bool

text \<open>
  Modelled from the spec: the Count Estimator of section 4.4, which is the count endpoint
  of \<open>api/routers/explorer.py\<close>; the console only calls it. Without a predicate it answers
  from the store's size statistics and reports the value as not exact; with a predicate it
  runs the count statement scoped by that predicate and reports the value as exact.
  \<open>size_estimate\<close> is the store's statistic, \<open>scoped_count\<close> the count of the rows that
  satisfy a predicate.
\<close>

definition count_estimate ::
  "int \<Rightarrow> (string \<Rightarrow> int) \<Rightarrow> count_params \<Rightarrow> CountEstimate" where
  "count_estimate size_estimate scoped_count cp =
     (case count_where_clause cp of
        None \<Rightarrow> \<lparr> estimate_value = size_estimate, exact = False \<rparr>
      | Some predicate \<Rightarrow> \<lparr> estimate_value = scoped_count predicate, exact = True \<rparr>)"

section \<open>A browsing session, for the examples\<close>

definition users_schema :: TableSchema where
  "users_schema =
     \<lparr> keyspace = ''shop'', table = ''users'', columns = [], partition_keys = [],
       clustering_keys = [] \<rparr>"

definition orders_schema :: TableSchema where
  "orders_schema =
     \<lparr> keyspace = ''shop'', table = ''orders'', columns = [], partition_keys = [],
       clustering_keys = [] \<rparr>"

definition page :: "string option \<Rightarrow> unit PaginatedData" where
  "page token =
     \<lparr> rows = [], page_size = 50, has_more = truthy token, next_page_state = token,
       count = 0 \<rparr>"

text \<open>The first page of \<open>shop.users\<close>, with a next token.\<close>

definition users_first_page :: "unit app_state" where
  "users_first_page =
     snd (selectTable initial_state ''shop'' ''users''
       (Loaded users_schema (page (Some ''tokenA'')) 120))"

text \<open>The same table with the filter \<open>status = 'active'\<close> typed into the form.\<close>

definition users_filter_typed :: "unit app_state" where
  "users_filter_typed =
     users_first_page\<lparr>filterColumn := ''status'', filterOperator := ''='',
       filterValue := ''active''\<rparr>"













section \<open>The language of the number pattern\<close>

inductive_cases acc_NeverE: "accepts Never u"
inductive_cases acc_EmptyE: "accepts Empty u"
inductive_cases acc_LitE: "accepts (Lit c) u"
inductive_cases acc_DigitE: "accepts DigitClass u"
inductive_cases acc_OrE: "accepts (Or r s) u"
inductive_cases acc_ThenE: "accepts (Then r s) u"

lemma accepts_Many_step:
  "accepts (Many r) w \<Longrightarrow> w = c # cs \<Longrightarrow>
     \<exists>u v. cs = u @ v \<and> accepts r (c # u) \<and> accepts (Many r) v"
proof (induction "Many r" w arbitrary: c cs rule: accepts.induct)
  case acc_Many0
  then show ?case by simp
next
  case (acc_ManyS u v)
  show ?case
  proof (cases u)
    case Nil
    with acc_ManyS show ?thesis by simp
  next
    case (Cons a u')
    with acc_ManyS have "cs = u' @ v" "accepts r (c # u')" by auto
    with acc_ManyS(3) show ?thesis by blast
  qed
qed

lemma nullable_accepts: "nullable r \<longleftrightarrow> accepts r []"
proof (induction r)
  case (Then r s)
  then show ?case
    by (auto elim!: acc_ThenE intro: acc_Then [of r "[]" s "[]", simplified])
qed (auto intro: accepts.intros elim: acc_NeverE acc_LitE acc_DigitE acc_OrE)

lemma deriv_accepts: "accepts (deriv c r) w \<longleftrightarrow> accepts r (c # w)"
proof (induction r arbitrary: w)
  case Never
  then show ?case by (auto elim: acc_NeverE)
next
  case Empty
  then show ?case by (auto elim: acc_NeverE acc_EmptyE)
next
  case (Lit d)
  then show ?case by (auto elim: acc_NeverE acc_EmptyE acc_LitE intro: accepts.intros)
next
  case DigitClass
  then show ?case by (auto elim: acc_NeverE acc_EmptyE acc_DigitE intro: accepts.intros)
next
  case (Or r s)
  then show ?case by (auto elim!: acc_OrE intro: accepts.intros)
next
  case (Then r s)
  show ?case
  proof
    assume "accepts (deriv c (Then r s)) w"
    then consider (left) "accepts (Then (deriv c r) s) w"
      | (right) "nullable r" "accepts (deriv c s) w"
      by (auto split: if_splits elim: acc_OrE)
    then show "accepts (Then r s) (c # w)"
    proof cases
      case left
      then obtain u v where "w = u @ v" "accepts (deriv c r) u" "accepts s v"
        by (auto elim: acc_ThenE)
      then show ?thesis
        using Then.IH(1) acc_Then [of r "c # u" s v] by simp
    next
      case right
      then show ?thesis
        using Then.IH(2) nullable_accepts acc_Then [of r "[]" s "c # w"] by simp
    qed
  next
    assume "accepts (Then r s) (c # w)"
    then obtain u v where uv: "c # w = u @ v" "accepts r u" "accepts s v"
      by (auto elim: acc_ThenE)
    show "accepts (deriv c (Then r s)) w"
    proof (cases u)
      case Nil
      with uv have "nullable r" "accepts (deriv c s) w"
        using Then.IH(2) nullable_accepts by auto
      then show ?thesis by (simp add: acc_OrR)
    next
      case (Cons a u')
      with uv have "w = u' @ v" "accepts (deriv c r) u'"
        using Then.IH(1) by auto
      with uv(3) have "accepts (Then (deriv c r) s) w"
        by (auto intro: acc_Then)
      then show ?thesis by (simp add: acc_OrL)
    qed
  qed
next
  case (Many r)
  show ?case
  proof
    assume "accepts (deriv c (Many r)) w"
    then obtain u v where "w = u @ v" "accepts (deriv c r) u" "accepts (Many r) v"
      by (auto elim: acc_ThenE)
    then show "accepts (Many r) (c # w)"
      using Many.IH acc_ManyS [of r "c # u" v] by simp
  next
    assume "accepts (Many r) (c # w)"
    then obtain u v where "w = u @ v" "accepts r (c # u)" "accepts (Many r) v"
      using accepts_Many_step by blast
    then show "accepts (deriv c (Many r)) w"
      using Many.IH by (auto intro: acc_Then)
  qed
qed

lemma test_accepts: "test r w \<longleftrightarrow> accepts r w"
  by (induction w arbitrary: r) (simp_all add: nullable_accepts deriv_accepts)

lemma accepts_Many_digits: "accepts (Many DigitClass) w \<longleftrightarrow> list_all is_digit w"
proof
  assume "accepts (Many DigitClass) w"
  then show "list_all is_digit w"
    by (induction "Many DigitClass" w rule: accepts.induct) (auto elim: acc_DigitE)
next
  show "list_all is_digit w \<Longrightarrow> accepts (Many DigitClass) w"
  proof (induction w)
    case Nil
    show ?case by (rule acc_Many0)
  next
    case (Cons c w)
    then show ?case
      using acc_ManyS [of DigitClass "[c]" w] by (simp add: acc_Digit)
  qed
qed

lemma accepts_Plus_digits:
  "accepts (Plus DigitClass) w \<longleftrightarrow> w \<noteq> [] \<and> list_all is_digit w"
  unfolding Plus_def
  by (cases w) (auto elim!: acc_ThenE acc_DigitE simp: accepts_Many_digits
      intro: acc_Then [of DigitClass "[c]" "Many DigitClass" for c, simplified] acc_Digit)

lemma accepts_Opt: "accepts (Opt r) w \<longleftrightarrow> w = [] \<or> accepts r w"
  unfolding Opt_def by (auto elim: acc_OrE acc_EmptyE intro: accepts.intros)

text \<open>The tail of a number: nothing, or a decimal point and at least one digit.\<close>

lemma accepts_fraction:
  "accepts (Opt (Then (Lit CHR ''.'') (Plus DigitClass))) w \<longleftrightarrow>
     w = [] \<or> (take 1 w = ''.'' \<and> drop 1 w \<noteq> [] \<and> list_all is_digit (drop 1 w))"
  unfolding accepts_Opt
  by (cases w) (auto elim!: acc_ThenE acc_LitE simp: accepts_Plus_digits
      intro: acc_Then [of "Lit CHR ''.''" "[CHR ''.'']" _ _, simplified] acc_Lit)

lemma fraction_not_digit:
  "accepts (Opt (Then (Lit CHR ''.'') (Plus DigitClass))) w \<Longrightarrow>
     takeWhile is_digit w = [] \<and> dropWhile is_digit w = w"
  by (cases w) (auto simp: accepts_fraction is_digit_def)

lemma accepts_unsigned:
  "accepts (Then (Plus DigitClass) (Opt (Then (Lit CHR ''.'') (Plus DigitClass)))) w \<longleftrightarrow>
     takeWhile is_digit w \<noteq> [] \<and>
     accepts (Opt (Then (Lit CHR ''.'') (Plus DigitClass))) (dropWhile is_digit w)"
  (is "accepts (Then ?D ?F) w \<longleftrightarrow> _")
proof
  assume "accepts (Then ?D ?F) w"
  then obtain u v where uv: "w = u @ v" "accepts ?D u" "accepts ?F v"
    by (rule acc_ThenE)
  then have "takeWhile is_digit w = u" "dropWhile is_digit w = v"
    using fraction_not_digit [of v]
    by (simp_all add: takeWhile_append2 dropWhile_append2 list_all_iff accepts_Plus_digits)
  with uv show "takeWhile is_digit w \<noteq> [] \<and> accepts ?F (dropWhile is_digit w)"
    by (simp add: accepts_Plus_digits)
next
  assume h: "takeWhile is_digit w \<noteq> [] \<and> accepts ?F (dropWhile is_digit w)"
  have "list_all is_digit (takeWhile is_digit w)"
    by (auto simp: list_all_iff dest: set_takeWhileD)
  with h have "accepts (Then ?D ?F) (takeWhile is_digit w @ dropWhile is_digit w)"
    by (intro acc_Then) (simp_all add: accepts_Plus_digits)
  then show "accepts (Then ?D ?F) w"
    by simp
qed

lemma accepts_number_re: "accepts number_re v \<longleftrightarrow> numeric_grammar v"
proof -
  let ?U = "Then (Plus DigitClass) (Opt (Then (Lit CHR ''.'') (Plus DigitClass)))"
  have minus: "accepts ?U w \<Longrightarrow> take 1 w \<noteq> ''-''" for w
    by (cases w) (auto simp: accepts_unsigned is_digit_def)
  have "accepts number_re v \<longleftrightarrow> accepts ?U (if take 1 v = ''-'' then drop 1 v else v)"
  proof
    assume "accepts number_re v"
    then have "accepts (Then (Opt (Lit CHR ''-'')) ?U) v"
      by (simp add: number_re_def)
    then obtain u w where "v = u @ w" "accepts (Opt (Lit CHR ''-'')) u" "accepts ?U w"
      by (rule acc_ThenE)
    then have uw: "v = u @ w" "u = [] \<or> u = ''-''" "accepts ?U w"
      by (auto simp: accepts_Opt elim: acc_LitE)
    then show "accepts ?U (if take 1 v = ''-'' then drop 1 v else v)"
      using minus [of w] by auto
  next
    assume h: "accepts ?U (if take 1 v = ''-'' then drop 1 v else v)"
    show "accepts number_re v"
    proof (cases "take 1 v = ''-''")
      case True
      then have v: "v = ''-'' @ drop 1 v" by (cases v) auto
      from True h have "accepts (Then (Opt (Lit CHR ''-'')) ?U) (''-'' @ drop 1 v)"
        by (intro acc_Then) (simp_all add: accepts_Opt acc_Lit)
      with v show ?thesis unfolding number_re_def by simp
    next
      case False
      with h have "accepts (Then (Opt (Lit CHR ''-'')) ?U) ([] @ v)"
        by (intro acc_Then) (simp_all add: accepts_Opt)
      then show ?thesis unfolding number_re_def by simp
    qed
  qed
  then show ?thesis
    by (simp add: numeric_grammar_def accepts_unsigned accepts_fraction Let_def)
qed

lemma isNumber_grammar: "isNumber v \<longleftrightarrow> numeric_grammar (trim v)"
  by (simp add: isNumber_def test_accepts accepts_number_re)

section \<open>Quoting and reading back\<close>

lemma read_body_plain: "quote \<notin> set v \<Longrightarrow> read_body (v @ [quote]) = Some v"
  by (induction v rule: read_body.induct) (auto split: if_splits)

lemma read_body_step:
  "c \<noteq> quote \<Longrightarrow> w \<noteq> [] \<Longrightarrow> read_body (c # w) = map_option ((#) c) (read_body w)"
  by (cases w) auto

lemma read_body_escaped: "read_body (escape_quotes v @ [quote]) = Some v"
  by (induction v) (auto simp: escape_quotes_def read_body_step)

text \<open>The reader inverts the quoting that the specification describes.\<close>

lemma parse_literal_spec_quoted: "parse_literal (spec_quoted v) = Some v"
  by (simp add: spec_quoted_def read_body_escaped)

lemmas evaluate_number =
  isNumber_def number_re_def Opt_def Plus_def trim_def is_space_def is_digit_def

text \<open>
  C1, as the code has it. For an operator other than \<open>CONTAINS\<close>, a value is Numeric
  exactly when the value with its leading and trailing white space removed matches the
  grammar (optional minus, digits, optional decimal point and digits); a Numeric value is
  written into the fragment as it was typed, without quotes; any other value is written
  between two single quotes, unchanged. A value that is not Numeric and holds no quote
  character is read back from its literal.
\<close>

theorem C1_value_quoting:
  "(isNumber v \<longleftrightarrow> numeric_grammar (trim v)) \<and>
   (op \<noteq> ''CONTAINS'' \<longrightarrow> isNumber v \<longrightarrow>
      compile_filter col op v = col @ '' '' @ op @ '' '' @ v) \<and>
   (op \<noteq> ''CONTAINS'' \<longrightarrow> \<not> isNumber v \<longrightarrow>
      compile_filter col op v = col @ '' '' @ op @ '' '' @ [quote] @ v @ [quote]) \<and>
   (\<not> isNumber v \<longrightarrow> quote \<notin> set v \<longrightarrow> parse_literal (quotedValue v) = Some v)"
  by (simp add: isNumber_grammar compile_filter_def quotedValue_def read_body_plain)

theorem C1_value_quoting_witness:
  "''>='' \<noteq> ''CONTAINS'' \<and> isNumber ''4.5'' \<and>
   compile_filter ''score'' ''>='' ''4.5'' = ''score >= 4.5'' \<and>
   ''='' \<noteq> ''CONTAINS'' \<and> \<not> isNumber ''active'' \<and> quote \<notin> set ''active'' \<and>
   compile_filter ''status'' ''='' ''active'' = ''status = '' @ [quote] @ ''active'' @ [quote] \<and>
   parse_literal (quotedValue ''active'') = Some ''active''"
  using C1_value_quoting [of "''4.5''" "''>=''" "''score''"]
    C1_value_quoting [of "''active''" "''=''" "''status''"]
  by (simp add: evaluate_number quote_def)

text \<open>
  C1 as the specification states it fails on the code. The value \<open>O'Brien\<close> is written
  as \<open>'O'Brien'\<close>: the embedded quote is not doubled, and the literal does not read back
  to the value. The value \<open>42\<close> with a leading blank is Numeric for the code, because the
  test runs on the trimmed value, though the value itself does not match the grammar.
\<close>

theorem C1_embedded_quote_counterexample:
  "compile_filter ''name'' ''='' ''O'Brien'' = ''name = '' @ [quote] @ ''O'Brien'' @ [quote] \<and>
   quotedValue ''O'Brien'' \<noteq> spec_quoted ''O'Brien'' \<and>
   parse_literal (quotedValue ''O'Brien'') \<noteq> Some ''O'Brien'' \<and>
   isNumber '' 42'' \<and> \<not> numeric_grammar '' 42''"
  by (simp add: compile_filter_def quotedValue_def spec_quoted_def escape_quotes_def
      numeric_grammar_def evaluate_number quote_def)

lemmas run_handlers =
  selectTable_def handleNextPage_def handlePreviousPage_def handlePageSizeChange_def
  applyServerSideFilters_def clearServerSideFilters_def fetchTableData_def sends_def
  hasFilters_def build_request_def build_params_def build_countParams_def
  filter_active_def whereClause_def Let_def

lemmas run_examples =
  users_first_page_def users_filter_typed_def users_schema_def orders_schema_def page_def
  initial_state_def

section \<open>The cursor: Next and Previous\<close>

lemma handleNextPage_loaded:
  assumes "can_advance s" "loaded r"
  shows "pageHistory (snd (handleNextPage s r)) = pageHistory s @ [sentinel (currentPageState s)]"
    and "truthy (currentPageState (snd (handleNextPage s r)))"
    and "selectedTable (snd (handleNextPage s r)) \<noteq> None"
  using assms
  by (cases r; auto simp: can_advance_def handleNextPage_def fetchTableData_def sends_def
      sentinel_def Let_def split: option.splits)+

lemma handlePreviousPage_loaded:
  assumes "selectedTable s \<noteq> None" "pageHistory s = h @ [x]" "loaded r"
  shows "pageHistory (snd (handlePreviousPage s r)) = h"
    and "currentPageState (snd (handlePreviousPage s r)) = unsentinel x"
    and "selectedTable (snd (handlePreviousPage s r)) \<noteq> None"
  using assms
  by (cases r; auto simp: handlePreviousPage_def fetchTableData_def sends_def
      unsentinel_def Let_def split: option.splits)+

lemma unsentinel_sentinel: "t \<noteq> Some [] \<Longrightarrow> unsentinel (sentinel t) = t"
  by (cases t) (auto simp: sentinel_def unsentinel_def)

lemma advances_snoc:
  "advances s (rs @ [r]) = snd (handleNextPage (advances s rs) r)"
  by (induction rs arbitrary: s) auto

lemma retreats_snoc:
  "retreats s (rs @ [r]) = snd (handlePreviousPage (retreats s rs) r)"
  by (induction rs arbitrary: s) auto

lemma all_advance_append:
  "all_advance s (rs @ rs') \<longleftrightarrow> all_advance s rs \<and> all_advance (advances s rs) rs'"
  by (induction rs arbitrary: s) auto

lemma all_advance_take: "all_advance s rs \<Longrightarrow> all_advance s (take k rs)"
  using all_advance_append [of s "take k rs" "drop k rs"] by simp

text \<open>No token of a run that started without one is the empty string.\<close>

lemma advances_current:
  "all_advance s rs \<Longrightarrow> currentPageState s \<noteq> Some [] \<Longrightarrow>
     currentPageState (advances s rs) \<noteq> Some []"
proof (induction rs arbitrary: s)
  case Nil
  then show ?case by simp
next
  case (Cons r rs)
  then have "truthy (currentPageState (snd (handleNextPage s r)))"
    using handleNextPage_loaded(2) [of s r] by simp
  then have "currentPageState (snd (handleNextPage s r)) \<noteq> Some []"
    by auto
  with Cons show ?case by simp
qed

lemma advances_selected:
  "all_advance s rs \<Longrightarrow> selectedTable s \<noteq> None \<Longrightarrow> selectedTable (advances s rs) \<noteq> None"
proof (induction rs arbitrary: s)
  case Nil
  then show ?case by simp
next
  case (Cons r rs)
  then show ?case
    using handleNextPage_loaded(3) [of s r] by simp
qed

lemma retreat_after_advances:
  assumes "selectedTable s \<noteq> None" "currentPageState s \<noteq> Some []" "all_advance s rs"
    and "\<forall>r\<in>set rs'. loaded r" "length rs' \<le> length rs"
  shows "pageHistory (retreats (advances s rs) rs')
           = pageHistory (advances s (take (length rs - length rs') rs)) \<and>
         currentPageState (retreats (advances s rs) rs')
           = currentPageState (advances s (take (length rs - length rs') rs)) \<and>
         selectedTable (retreats (advances s rs) rs') \<noteq> None"
  using assms(4,5)
proof (induction rs' rule: rev_induct)
  case Nil
  with assms(1,3) show ?case
    by (simp add: advances_selected)
next
  case (snoc r rs')
  let ?k = "length rs - Suc (length rs')"
  let ?before = "advances s (take ?k rs)"
  from snoc.prems have k: "?k < length rs" "length rs - length rs' = Suc ?k"
    by auto
  then have split: "take (Suc ?k) rs = take ?k rs @ [rs ! ?k]"
    by (simp add: take_Suc_conv_app_nth)
  have "all_advance s (take ?k rs @ [rs ! ?k])"
    using assms(3) all_advance_take [of s rs "Suc ?k"] by (simp add: split)
  then have run: "all_advance s (take ?k rs)" "can_advance ?before" "loaded (rs ! ?k)"
    by (simp_all add: all_advance_append)
  have hist: "pageHistory (advances s (take (Suc ?k) rs))
      = pageHistory ?before @ [sentinel (currentPageState ?before)]"
    using run(2,3) handleNextPage_loaded(1) [of ?before "rs ! ?k"]
    by (simp add: split advances_snoc)
  from snoc have IH:
    "pageHistory (retreats (advances s rs) rs') = pageHistory (advances s (take (Suc ?k) rs))"
    "selectedTable (retreats (advances s rs) rs') \<noteq> None"
    using k by auto
  have "loaded r" using snoc.prems by simp
  then show ?case
    using handlePreviousPage_loaded [OF IH(2) IH(1) [unfolded hist]]
      advances_current [OF run(1) assms(2)]
    by (simp add: retreats_snoc unsentinel_sentinel)
qed

text \<open>
  C2. Start on the first page (empty history, no current token). After \<open>n\<close> clicks on Next
  that each pass the guard and get their page, and \<open>n\<close> clicks on Previous that each get
  their page, the history is empty and the current token is \<open>null\<close> again; and after the
  \<open>i\<close>-th click on Previous the current token is the one that was current before the
  \<open>i\<close>-th-from-last click on Next, that is, after the first \<open>n - i\<close> of them.
\<close>

theorem C2_advance_then_retreat:
  assumes "pageHistory s = []" and "currentPageState s = None"
    and "all_advance s rs" and "\<forall>r\<in>set rs'. loaded r" and "length rs' = length rs"
  shows "pageHistory (retreats (advances s rs) rs') = [] \<and>
         currentPageState (retreats (advances s rs) rs') = None \<and>
         (\<forall>i. 0 < i \<and> i \<le> length rs \<longrightarrow>
            currentPageState (retreats (advances s rs) (take i rs'))
              = currentPageState (advances s (take (length rs - i) rs)))"
proof (cases rs)
  case Nil
  with assms show ?thesis by simp
next
  case (Cons r rs0)
  with assms(3) have sel: "selectedTable s \<noteq> None"
    by (simp add: can_advance_def)
  have cur: "currentPageState s \<noteq> Some []"
    using assms(2) by simp
  have "pageHistory (retreats (advances s rs) rs') = pageHistory s \<and>
        currentPageState (retreats (advances s rs) rs') = currentPageState s"
    using retreat_after_advances [OF sel cur assms(3,4)] assms(5) by simp
  moreover have "currentPageState (retreats (advances s rs) (take i rs'))
      = currentPageState (advances s (take (length rs - i) rs))"
    if "0 < i \<and> i \<le> length rs" for i
  proof -
    have "\<forall>r\<in>set (take i rs'). loaded r"
      using assms(4) by (auto dest: in_set_takeD)
    moreover have "length (take i rs') = i"
      using that assms(5) by simp
    ultimately show ?thesis
      using retreat_after_advances [OF sel cur assms(3), of "take i rs'"] that by simp
  qed
  ultimately show ?thesis
    using assms(1,2) by simp
qed

theorem C2_advance_then_retreat_witness:
  "pageHistory users_first_page = [] \<and> currentPageState users_first_page = None \<and>
   all_advance users_first_page
     [Loaded users_schema (page (Some ''tokenB'')) 120, Loaded users_schema (page None) 120] \<and>
   loaded (Loaded users_schema (page (Some ''tokenA'')) 120) \<and>
   loaded (Loaded users_schema (page (Some ''tokenB'')) 120) \<and>
   currentPageState (advances users_first_page
     [Loaded users_schema (page (Some ''tokenB'')) 120, Loaded users_schema (page None) 120])
     = Some ''tokenB'' \<and>
   currentPageState (retreats (advances users_first_page
       [Loaded users_schema (page (Some ''tokenB'')) 120, Loaded users_schema (page None) 120])
     [Loaded users_schema (page (Some ''tokenB'')) 120]) = Some ''tokenA'' \<and>
   pageHistory (retreats (advances users_first_page
       [Loaded users_schema (page (Some ''tokenB'')) 120, Loaded users_schema (page None) 120])
     [Loaded users_schema (page (Some ''tokenB'')) 120,
      Loaded users_schema (page (Some ''tokenA'')) 120]) = [] \<and>
   currentPageState (retreats (advances users_first_page
       [Loaded users_schema (page (Some ''tokenB'')) 120, Loaded users_schema (page None) 120])
     [Loaded users_schema (page (Some ''tokenB'')) 120,
      Loaded users_schema (page (Some ''tokenA'')) 120]) = None"
  using C2_advance_then_retreat [of users_first_page
      "[Loaded users_schema (page (Some ''tokenB'')) 120, Loaded users_schema (page None) 120]"
      "[Loaded users_schema (page (Some ''tokenB'')) 120,
        Loaded users_schema (page (Some ''tokenA'')) 120]"]
  by (simp add: run_handlers run_examples can_advance_def)

section \<open>Events that change the query shape\<close>

lemma fst_fetchTableData:
  "fst (fetchTableData c s ks tb ps af resp) = build_request c ks tb ps af"
  by (simp add: fetchTableData_def)

text \<open>Changing the page size, applying a filter and clearing it empty the history.\<close>

lemma reset_paths_clear_history:
  "pageHistory (snd (handlePageSizeChange c n resp)) = []"
  "selectedTable c \<noteq> None \<Longrightarrow> pageHistory (snd (applyServerSideFilters c resp)) = []"
  "selectedTable c \<noteq> None \<Longrightarrow> pageHistory (snd (clearServerSideFilters c resp)) = []"
  by (cases resp; auto simp: run_handlers split: option.splits)+

text \<open>The table button leaves the history as it is.\<close>

lemma selectTable_keeps_history:
  "pageHistory (snd (selectTable c ks tb resp)) = pageHistory c"
  by (cases resp) (auto simp: run_handlers)

text \<open>
  C3 at a concrete session: on the second page of \<open>shop.users\<close> the history holds one
  entry. Changing the page size there empties it; clicking the table \<open>shop.orders\<close> loads
  that table's first page without a token, and the history still holds the entry.
\<close>

theorem C3_table_switch_keeps_history:
  "pageHistory (advances users_first_page [Loaded users_schema (page (Some ''tokenB'')) 120])
     = [[]] \<and>
   pageHistory (snd (handlePageSizeChange
     (advances users_first_page [Loaded users_schema (page (Some ''tokenB'')) 120]) 20
     (Loaded users_schema (page (Some ''tokenC'')) 120))) = [] \<and>
   pageHistory (snd (selectTable
     (advances users_first_page [Loaded users_schema (page (Some ''tokenB'')) 120])
     ''shop'' ''orders'' (Loaded orders_schema (page (Some ''tokenX'')) 7))) = [[]] \<and>
   currentPageState (snd (selectTable
     (advances users_first_page [Loaded users_schema (page (Some ''tokenB'')) 120])
     ''shop'' ''orders'' (Loaded orders_schema (page (Some ''tokenX'')) 7))) = None \<and>
   selectedTable (snd (selectTable
     (advances users_first_page [Loaded users_schema (page (Some ''tokenB'')) 120])
     ''shop'' ''orders'' (Loaded orders_schema (page (Some ''tokenX'')) 7))) = Some orders_schema \<and>
   \<not> previous_disabled (snd (selectTable
     (advances users_first_page [Loaded users_schema (page (Some ''tokenB'')) 120])
     ''shop'' ''orders'' (Loaded orders_schema (page (Some ''tokenX'')) 7)))"
  by (simp add: run_handlers run_examples previous_disabled_def)

section \<open>Previous on the first page\<close>

text \<open>
  C4, as the code has it: with an empty history \<open>handlePreviousPage\<close> sends no request
  and leaves every cell, the error cell included, as it was; and the Previous button is
  disabled in exactly that case.
\<close>

theorem C4_previous_on_first_page:
  "pageHistory c = [] \<Longrightarrow>
     handlePreviousPage c resp = (None, c) \<and> previous_disabled c"
  by (simp add: handlePreviousPage_def previous_disabled_def split: option.splits)

theorem C4_previous_on_first_page_witness:
  "pageHistory users_first_page = [] \<and>
   handlePreviousPage users_first_page (Failed ''unreachable'') = (None, users_first_page) \<and>
   previous_disabled users_first_page"
  using C4_previous_on_first_page [of users_first_page "Failed ''unreachable''"]
  by (simp add: run_handlers run_examples)

text \<open>
  C4 as the specification states it fails: on the first page of \<open>shop.users\<close> a call of
  \<open>handlePreviousPage\<close> sends nothing and the error cell stays empty.
\<close>

theorem C4_no_error_counterexample:
  "fst (handlePreviousPage users_first_page (Failed ''unreachable'')) = None \<and>
   error (snd (handlePreviousPage users_first_page (Failed ''unreachable''))) = None \<and>
   snd (handlePreviousPage users_first_page (Failed ''unreachable'')) = users_first_page"
  by (simp add: run_handlers run_examples)

section \<open>The full-scan flag and the predicate of a request\<close>

lemma compile_filter_nonempty: "compile_filter col op v \<noteq> []"
  by (simp add: compile_filter_def)

lemma whereClause_nonempty: "whereClause c af \<noteq> [] \<longleftrightarrow> filter_active c af"
  by (simp add: whereClause_def compile_filter_nonempty)

text \<open>
  C5. The rows request of \<open>fetchTableData\<close> carries \<open>allow_filtering = true\<close>, together
  with the predicate, whenever the filter is applied with a column and a value, whatever
  the operator and the column are; otherwise it carries neither.
\<close>

theorem C5_full_scan_flag:
  "(applyFilters \<and> filterColumn c \<noteq> [] \<and> filterValue c \<noteq> [] \<longrightarrow>
      param_allow_filtering (req_params (fst (fetchTableData c s ks tb pageState applyFilters resp)))
        = Some True \<and>
      param_where_clause (req_params (fst (fetchTableData c s ks tb pageState applyFilters resp)))
        = Some (compile_filter (filterColumn c) (filterOperator c) (filterValue c))) \<and>
   (\<not> (applyFilters \<and> filterColumn c \<noteq> [] \<and> filterValue c \<noteq> []) \<longrightarrow>
      param_allow_filtering (req_params (fst (fetchTableData c s ks tb pageState applyFilters resp)))
        = None \<and>
      param_where_clause (req_params (fst (fetchTableData c s ks tb pageState applyFilters resp)))
        = None)"
  by (simp add: fst_fetchTableData build_request_def build_params_def filter_active_def
      whereClause_def)

theorem C5_full_scan_flag_witness:
  "filterColumn users_filter_typed \<noteq> [] \<and> filterValue users_filter_typed \<noteq> [] \<and>
   param_allow_filtering (req_params (fst (fetchTableData users_filter_typed users_filter_typed
      ''shop'' ''users'' None True (Failed ''unreachable'')))) = Some True \<and>
   param_where_clause (req_params (fst (fetchTableData users_filter_typed users_filter_typed
      ''shop'' ''users'' None True (Failed ''unreachable''))))
     = Some (''status = '' @ [quote] @ ''active'' @ [quote]) \<and>
   filterColumn users_first_page = [] \<and>
   param_allow_filtering (req_params (fst (fetchTableData users_first_page users_first_page
      ''shop'' ''users'' None True (Failed ''unreachable'')))) = None \<and>
   param_allow_filtering (req_params (fst (fetchTableData users_filter_typed users_filter_typed
      ''shop'' ''users'' None False (Failed ''unreachable'')))) = None"
  using C5_full_scan_flag [of True users_filter_typed users_filter_typed "''shop''" "''users''"
      None "Failed ''unreachable''"]
    C5_full_scan_flag [of True users_first_page users_first_page "''shop''" "''users''"
      None "Failed ''unreachable''"]
    C5_full_scan_flag [of False users_filter_typed users_filter_typed "''shop''" "''users''"
      None "Failed ''unreachable''"]
  by (simp add: run_handlers run_examples compile_filter_def quotedValue_def evaluate_number)

text \<open>
  C6. With the operator \<open>CONTAINS\<close>, a column \<open>c\<close> and a value \<open>v\<close>, the predicate of the
  rows request is \<open>c LIKE '%v%'\<close> and the request carries \<open>allow_filtering = true\<close>.
\<close>

theorem C6_contains:
  "applyFilters \<Longrightarrow> filterColumn c \<noteq> [] \<Longrightarrow> filterValue c \<noteq> [] \<Longrightarrow>
   filterOperator c = ''CONTAINS'' \<Longrightarrow>
   param_where_clause (req_params (fst (fetchTableData c s ks tb pageState applyFilters resp)))
     = Some (filterColumn c @ '' LIKE '' @ [quote] @ ''%'' @ filterValue c @ ''%'' @ [quote]) \<and>
   param_allow_filtering (req_params (fst (fetchTableData c s ks tb pageState applyFilters resp)))
     = Some True"
  by (simp add: fst_fetchTableData build_request_def build_params_def filter_active_def
      whereClause_def compile_filter_def)

theorem C6_contains_witness:
  "filterColumn (users_first_page\<lparr>filterColumn := ''name'', filterOperator := ''CONTAINS'',
      filterValue := ''John''\<rparr>) \<noteq> [] \<and>
   filterValue (users_first_page\<lparr>filterColumn := ''name'', filterOperator := ''CONTAINS'',
      filterValue := ''John''\<rparr>) \<noteq> [] \<and>
   filterOperator (users_first_page\<lparr>filterColumn := ''name'', filterOperator := ''CONTAINS'',
      filterValue := ''John''\<rparr>) = ''CONTAINS'' \<and>
   param_where_clause (req_params (fst (fetchTableData
      (users_first_page\<lparr>filterColumn := ''name'', filterOperator := ''CONTAINS'',
         filterValue := ''John''\<rparr>)
      users_first_page ''shop'' ''users'' None True (Failed ''unreachable''))))
     = Some (''name LIKE '' @ [quote] @ ''%John%'' @ [quote]) \<and>
   param_allow_filtering (req_params (fst (fetchTableData
      (users_first_page\<lparr>filterColumn := ''name'', filterOperator := ''CONTAINS'',
         filterValue := ''John''\<rparr>)
      users_first_page ''shop'' ''users'' None True (Failed ''unreachable'')))) = Some True"
  using C6_contains [of True "users_first_page\<lparr>filterColumn := ''name'',
      filterOperator := ''CONTAINS'', filterValue := ''John''\<rparr>" users_first_page
      "''shop''" "''users''" None "Failed ''unreachable''"]
  by (simp add: run_handlers run_examples compile_filter_def)

section \<open>The count request\<close>

text \<open>
  C7. The count request of \<open>fetchTableData\<close> carries a predicate exactly when the filter
  is applied with a column and a value, and then it is the predicate and the flag of the
  rows request. So the estimator reports an exact count exactly in that case, computed
  under that predicate; with no filter it reports the store's size statistic as not
  exact, whatever a scan of the table would count.
\<close>

theorem C7_count_exact_iff_filtered:
  "(exact (count_estimate size_estimate scoped_count
      (req_countParams (fst (fetchTableData c s ks tb pageState applyFilters resp))))
     \<longleftrightarrow> applyFilters \<and> filterColumn c \<noteq> [] \<and> filterValue c \<noteq> []) \<and>
   (\<not> (applyFilters \<and> filterColumn c \<noteq> [] \<and> filterValue c \<noteq> []) \<longrightarrow>
      count_estimate size_estimate scoped_count
        (req_countParams (fst (fetchTableData c s ks tb pageState applyFilters resp)))
        = \<lparr> estimate_value = size_estimate, exact = False \<rparr>) \<and>
   (applyFilters \<and> filterColumn c \<noteq> [] \<and> filterValue c \<noteq> [] \<longrightarrow>
      count_where_clause (req_countParams (fst (fetchTableData c s ks tb pageState applyFilters resp)))
        = param_where_clause (req_params (fst (fetchTableData c s ks tb pageState applyFilters resp))) \<and>
      count_allow_filtering (req_countParams (fst (fetchTableData c s ks tb pageState applyFilters resp)))
        = param_allow_filtering (req_params (fst (fetchTableData c s ks tb pageState applyFilters resp))) \<and>
      count_allow_filtering (req_countParams (fst (fetchTableData c s ks tb pageState applyFilters resp)))
        = Some True \<and>
      count_estimate size_estimate scoped_count
        (req_countParams (fst (fetchTableData c s ks tb pageState applyFilters resp)))
        = \<lparr> estimate_value =
              scoped_count (compile_filter (filterColumn c) (filterOperator c) (filterValue c)),
            exact = True \<rparr>)"
  by (auto simp: fst_fetchTableData build_request_def build_params_def build_countParams_def
      count_estimate_def filter_active_def whereClause_def compile_filter_nonempty)

theorem C7_count_exact_iff_filtered_witness:
  "filterColumn users_filter_typed \<noteq> [] \<and> filterValue users_filter_typed \<noteq> [] \<and>
   count_estimate 120 (\<lambda>predicate. 7)
     (req_countParams (fst (fetchTableData users_filter_typed users_filter_typed
        ''shop'' ''users'' None True (Failed ''unreachable''))))
     = \<lparr> estimate_value = 7, exact = True \<rparr> \<and>
   count_where_clause
     (req_countParams (fst (fetchTableData users_filter_typed users_filter_typed
        ''shop'' ''users'' None True (Failed ''unreachable''))))
     = Some (''status = '' @ [quote] @ ''active'' @ [quote]) \<and>
   filterColumn users_first_page = [] \<and>
   count_estimate 120 (\<lambda>predicate. 7)
     (req_countParams (fst (fetchTableData users_first_page users_first_page
        ''shop'' ''users'' None False (Failed ''unreachable''))))
     = \<lparr> estimate_value = 120, exact = False \<rparr>"
  using C7_count_exact_iff_filtered [of 120 "\<lambda>predicate. 7" users_filter_typed
      users_filter_typed "''shop''" "''users''" None True "Failed ''unreachable''"]
    C7_count_exact_iff_filtered [of 120 "\<lambda>predicate. 7" users_first_page
      users_first_page "''shop''" "''users''" None False "Failed ''unreachable''"]
  by (simp add: run_handlers run_examples compile_filter_def quotedValue_def evaluate_number
      count_estimate_def)

section \<open>Compilation is a function of its inputs\<close>

text \<open>
  C9, as the code has it. What \<open>fetchTableData\<close> compiles is fixed by its inputs and by
  the cell \<open>queryLimit\<close>. Two renders that agree on the filter (column, operator, value)
  compile, for the same \<open>applyFilters\<close>, the same predicate text and the same flag, in the
  rows request and in the count request, character for character. If they also agree on
  the page size and on \<open>queryLimit\<close>, against which the page size is clamped, the whole
  request for a keyspace, table and page token is the same. Nothing else enters: not the
  other cells of the render, not the pending state, not the server's answer.
\<close>

theorem C9_compilation_deterministic:
  assumes "filterColumn c = filterColumn c'" and "filterOperator c = filterOperator c'"
    and "filterValue c = filterValue c'"
  shows "param_where_clause (req_params (fst (fetchTableData c s ks tb pageState applyFilters resp)))
           = param_where_clause
               (req_params (fst (fetchTableData c' s' ks' tb' pageState' applyFilters resp'))) \<and>
         param_allow_filtering (req_params (fst (fetchTableData c s ks tb pageState applyFilters resp)))
           = param_allow_filtering
               (req_params (fst (fetchTableData c' s' ks' tb' pageState' applyFilters resp'))) \<and>
         req_countParams (fst (fetchTableData c s ks tb pageState applyFilters resp))
           = req_countParams (fst (fetchTableData c' s' ks' tb' pageState' applyFilters resp')) \<and>
         (pageSize c = pageSize c' \<and> queryLimit c = queryLimit c' \<longrightarrow>
            fst (fetchTableData c s ks tb pageState applyFilters resp)
              = fst (fetchTableData c' s' ks tb pageState applyFilters resp'))"
  using assms
  by (simp add: fst_fetchTableData build_request_def build_params_def build_countParams_def
      filter_active_def whereClause_def)

theorem C9_compilation_deterministic_witness:
  "filterColumn users_filter_typed
     = filterColumn (advances users_filter_typed [Loaded users_schema (page (Some ''tokenB'')) 9]) \<and>
   filterOperator users_filter_typed
     = filterOperator (advances users_filter_typed [Loaded users_schema (page (Some ''tokenB'')) 9]) \<and>
   filterValue users_filter_typed
     = filterValue (advances users_filter_typed [Loaded users_schema (page (Some ''tokenB'')) 9]) \<and>
   pageSize users_filter_typed
     = pageSize (advances users_filter_typed [Loaded users_schema (page (Some ''tokenB'')) 9]) \<and>
   queryLimit users_filter_typed
     = queryLimit (advances users_filter_typed [Loaded users_schema (page (Some ''tokenB'')) 9]) \<and>
   users_filter_typed
     \<noteq> advances users_filter_typed [Loaded users_schema (page (Some ''tokenB'')) 9] \<and>
   fst (fetchTableData users_filter_typed users_filter_typed ''shop'' ''users''
          (Some ''tokenA'') True (Failed ''unreachable''))
     = fst (fetchTableData
          (advances users_filter_typed [Loaded users_schema (page (Some ''tokenB'')) 9])
          initial_state ''shop'' ''users'' (Some ''tokenA'') True
          (Loaded users_schema (page None) 9)) \<and>
   param_where_clause (req_params
     (fst (fetchTableData users_filter_typed users_filter_typed ''shop'' ''users''
          (Some ''tokenA'') True (Failed ''unreachable''))))
     = Some (''status = '' @ [quote] @ ''active'' @ [quote])"
  using C9_compilation_deterministic [of users_filter_typed
      "advances users_filter_typed [Loaded users_schema (page (Some ''tokenB'')) 9]"
      users_filter_typed "''shop''" "''users''" "Some ''tokenA''" True "Failed ''unreachable''"
      initial_state "''shop''" "''users''" "Some ''tokenA''" "Loaded users_schema (page None) 9"]
  by (simp add: run_handlers run_examples compile_filter_def quotedValue_def evaluate_number)

text \<open>
  C9 as it is stated fails: \<open>queryLimit\<close>, the cell behind the field Max results, is
  outside the tuple of the claim, and the request changes with it. For the same keyspace,
  table, filter, page size 50 and page token, the request asks for 50 rows when
  \<open>queryLimit\<close> is 1000 and for 10 rows when it is 10.
\<close>

theorem C9_query_limit_counterexample:
  "pageSize (users_filter_typed\<lparr>queryLimit := 10\<rparr>) = pageSize users_filter_typed \<and>
   filterColumn (users_filter_typed\<lparr>queryLimit := 10\<rparr>) = filterColumn users_filter_typed \<and>
   filterOperator (users_filter_typed\<lparr>queryLimit := 10\<rparr>) = filterOperator users_filter_typed \<and>
   filterValue (users_filter_typed\<lparr>queryLimit := 10\<rparr>) = filterValue users_filter_typed \<and>
   param_page_size (req_params
     (fst (fetchTableData users_filter_typed users_filter_typed ''shop'' ''users''
        (Some ''tokenA'') True (Failed ''unreachable'')))) = 50 \<and>
   param_page_size (req_params
     (fst (fetchTableData (users_filter_typed\<lparr>queryLimit := 10\<rparr>) users_filter_typed
        ''shop'' ''users'' (Some ''tokenA'') True (Failed ''unreachable'')))) = 10 \<and>
   fst (fetchTableData users_filter_typed users_filter_typed ''shop'' ''users''
        (Some ''tokenA'') True (Failed ''unreachable''))
     \<noteq> fst (fetchTableData (users_filter_typed\<lparr>queryLimit := 10\<rparr>) users_filter_typed
        ''shop'' ''users'' (Some ''tokenA'') True (Failed ''unreachable''))"
  by (simp add: run_handlers run_examples)

section \<open>Paging under a filter\<close>

text \<open>A fetch that applies the filter, or that carries a token, leaves the filter cells.\<close>

lemma fetchTableData_keeps_filter:
  assumes "applyFilters \<or> truthy pageState"
  shows "filterColumn (snd (fetchTableData c s ks tb pageState applyFilters resp)) = filterColumn s"
    and "filterOperator (snd (fetchTableData c s ks tb pageState applyFilters resp)) = filterOperator s"
    and "filterValue (snd (fetchTableData c s ks tb pageState applyFilters resp)) = filterValue s"
  using assms by (cases resp; auto simp: fetchTableData_def Let_def)+

text \<open>With a filter in the form, a click on Next or Previous leaves the filter cells.\<close>

lemma click_keeps_filter:
  assumes "hasFilters c"
  shows "filterColumn (snd (click c e resp)) = filterColumn c"
    and "filterOperator (snd (click c e resp)) = filterOperator c"
    and "filterValue (snd (click c e resp)) = filterValue c"
  using assms
  by (cases e; cases resp;
      auto simp: handleNextPage_def handlePreviousPage_def fetchTableData_def sends_def Let_def
        split: option.splits)+

lemma click_request:
  assumes "hasFilters c" "fst (click c e resp) = Some req"
  shows "param_where_clause (req_params req)
           = Some (compile_filter (filterColumn c) (filterOperator c) (filterValue c))"
    and "param_allow_filtering (req_params req) = Some True"
    and "req_countParams req =
           \<lparr> count_where_clause
               = Some (compile_filter (filterColumn c) (filterOperator c) (filterValue c)),
             count_allow_filtering = Some True \<rparr>"
  using assms
  by (cases e; auto simp: run_handlers compile_filter_nonempty split: option.splits if_splits)+

lemma navigate_requests:
  assumes "hasFilters c" "req \<in> set (navigate c es)"
  shows "param_where_clause (req_params req)
           = Some (compile_filter (filterColumn c) (filterOperator c) (filterValue c)) \<and>
         param_allow_filtering (req_params req) = Some True \<and>
         req_countParams req =
           \<lparr> count_where_clause
               = Some (compile_filter (filterColumn c) (filterOperator c) (filterValue c)),
             count_allow_filtering = Some True \<rparr>"
  using assms
proof (induction es arbitrary: c)
  case Nil
  then show ?case by simp
next
  case (Cons a es)
  obtain e resp where a: "a = (e, resp)" by (cases a)
  let ?c' = "snd (click c e resp)"
  have keep: "filterColumn ?c' = filterColumn c" "filterOperator ?c' = filterOperator c"
      "filterValue ?c' = filterValue c"
    using click_keeps_filter [OF Cons.prems(1)] by simp_all
  then have has: "hasFilters ?c'"
    using Cons.prems(1) by (simp add: hasFilters_def)
  from Cons.prems(2) a consider (here) "fst (click c e resp) = Some req"
    | (later) "req \<in> set (navigate ?c' es)"
    by (auto split: option.splits)
  then show ?case
  proof cases
    case here
    then show ?thesis
      using click_request [OF Cons.prems(1)] by simp
  next
    case later
    then show ?thesis
      using Cons.IH [OF has] keep by simp
  qed
qed

text \<open>
  As long as the filter cells hold what they held when the current page was requested
  with the filter applied, every request of a browse, clicks on Next and Previous in any
  order and with any answers, carries the predicate and the flag of that request.
\<close>

lemma browse_resends_unchanged_filter:
  assumes "hasFilters c0"
    and "filterColumn c = filterColumn c0" and "filterOperator c = filterOperator c0"
    and "filterValue c = filterValue c0"
    and "req \<in> set (navigate c es)"
  shows "param_where_clause (req_params req)
           = param_where_clause (req_params (fst (fetchTableData c0 s0 ks tb pageState0 True resp0))) \<and>
         param_allow_filtering (req_params req)
           = param_allow_filtering (req_params (fst (fetchTableData c0 s0 ks tb pageState0 True resp0))) \<and>
         req_countParams req = req_countParams (fst (fetchTableData c0 s0 ks tb pageState0 True resp0)) \<and>
         param_where_clause (req_params req)
           = Some (compile_filter (filterColumn c0) (filterOperator c0) (filterValue c0)) \<and>
         param_allow_filtering (req_params req) = Some True"
proof -
  have "hasFilters c"
    using assms(1-4) by (simp add: hasFilters_def)
  then show ?thesis
    using navigate_requests [of c req es] assms
    by (simp add: fst_fetchTableData build_request_def build_params_def build_countParams_def
        filter_active_def whereClause_def hasFilters_def compile_filter_nonempty)
qed

text \<open>
  C10 at a concrete session. The filter \<open>status = 'active'\<close> is applied to \<open>shop.users\<close>
  and its first page is shown, with the next token \<open>tokenF\<close>. The value in the form is
  then changed to \<open>banned\<close>, without Apply, and Next is clicked: the request carries the
  token \<open>tokenF\<close> of the query for \<open>active\<close> together with the predicate
  \<open>status = 'banned'\<close>, not the predicate that produced the current page. Likewise on a
  page loaded without any filter: once a column and a value are typed into the form, Next
  sends them as a predicate along with the token \<open>tokenA\<close> of the unfiltered query.
\<close>

theorem C10_next_page_sends_edited_filter:
  "map_option (\<lambda>req. param_where_clause (req_params req))
     (fst (applyServerSideFilters users_filter_typed
        (Loaded users_schema (page (Some ''tokenF'')) 9)))
     = Some (Some (''status = '' @ [quote] @ ''active'' @ [quote])) \<and>
   hasFilters ((snd (applyServerSideFilters users_filter_typed
        (Loaded users_schema (page (Some ''tokenF'')) 9)))\<lparr>filterValue := ''banned''\<rparr>) \<and>
   map_option (\<lambda>req. (param_page_state (req_params req), param_where_clause (req_params req)))
     (fst (handleNextPage
        ((snd (applyServerSideFilters users_filter_typed
           (Loaded users_schema (page (Some ''tokenF'')) 9)))\<lparr>filterValue := ''banned''\<rparr>)
        (Failed ''unreachable'')))
     = Some (Some ''tokenF'', Some (''status = '' @ [quote] @ ''banned'' @ [quote])) \<and>
   map_option (\<lambda>req. param_where_clause (req_params req))
     (fst (selectTable (initial_state :: unit app_state) ''shop'' ''users''
        (Loaded users_schema (page (Some ''tokenA'')) 120))) = Some None \<and>
   hasFilters users_filter_typed \<and>
   map_option (\<lambda>req. (param_page_state (req_params req), param_where_clause (req_params req)))
     (fst (handleNextPage users_filter_typed (Failed ''unreachable'')))
     = Some (Some ''tokenA'', Some (''status = '' @ [quote] @ ''active'' @ [quote]))"
  by (simp add: run_handlers run_examples compile_filter_def quotedValue_def evaluate_number)

section \<open>The sorted page\<close>

lemma mset_place: "mset (place cmp x ys) = add_mset x (mset ys)"
  by (induction ys) auto

lemma mset_js_sort: "mset (js_sort cmp xs) = mset xs"
  by (induction xs) (auto simp: mset_place)

lemma set_place: "set (place cmp x ys) = insert x (set ys)"
  using mset_place [of cmp x ys] by (metis set_mset_add_mset_insert set_mset_mset)

lemma set_js_sort: "set (js_sort cmp xs) = set xs"
  using mset_js_sort [of cmp xs] by (metis set_mset_mset)


text \<open>A consistent comparator leaves the list sorted.\<close>

lemma consistent_subset: "consistent cmp xs \<Longrightarrow> set ys \<subseteq> set xs \<Longrightarrow> consistent cmp ys"
  unfolding consistent_def by (meson subsetD)

lemma place_sorted:
  assumes "consistent cmp (x # ys)" "sorted_wrt (\<lambda>a b. cmp a b \<le> 0) ys"
  shows "sorted_wrt (\<lambda>a b. cmp a b \<le> 0) (place cmp x ys)"
  using assms
proof (induction ys)
  case Nil
  show ?case by simp
next
  case (Cons y ys)
  from Cons.prems(2) have tail: "sorted_wrt (\<lambda>a b. cmp a b \<le> 0) ys"
    and head: "\<forall>z\<in>set ys. cmp y z \<le> 0"
    by simp_all
  have trans: "cmp a b \<le> 0 \<Longrightarrow> cmp b c \<le> 0 \<Longrightarrow> cmp a c \<le> 0"
    if "a \<in> set (x # y # ys)" "b \<in> set (x # y # ys)" "c \<in> set (x # y # ys)" for a b c
    using Cons.prems(1) that unfolding consistent_def by blast
  have anti: "cmp a b < 0 \<longleftrightarrow> 0 < cmp b a"
    if "a \<in> set (x # y # ys)" "b \<in> set (x # y # ys)" for a b
    using Cons.prems(1) that unfolding consistent_def by blast
  show ?case
  proof (cases "cmp x y \<le> 0")
    case True
    have "cmp x z \<le> 0" if "z \<in> set ys" for z
      using trans [of x y z] True head that by simp
    with True Cons.prems(2) show ?thesis by simp
  next
    case False
    then have "cmp y x \<le> 0"
      using anti [of y x] by simp
    with head have "\<forall>z\<in>set (place cmp x ys). cmp y z \<le> 0"
      by (simp add: set_place)
    moreover have "consistent cmp (x # ys)"
      using Cons.prems(1) by (rule consistent_subset) auto
    ultimately show ?thesis
      using False Cons.IH tail by simp
  qed
qed

lemma js_sort_sorted:
  "consistent cmp xs \<Longrightarrow> sorted_wrt (\<lambda>a b. cmp a b \<le> 0) (js_sort cmp xs)"
proof (induction xs)
  case Nil
  show ?case by simp
next
  case (Cons x xs)
  have "consistent cmp (x # js_sort cmp xs)"
    using Cons.prems by (rule consistent_subset) (simp add: set_js_sort)
  moreover have "consistent cmp xs"
    using Cons.prems by (rule consistent_subset) auto
  ultimately show ?case
    using Cons.IH by (simp add: place_sorted)
qed

text \<open>Rows that compare equal keep the order they were loaded in.\<close>

lemma filter_place_other: "\<not> P x \<Longrightarrow> filter P (place cmp x ys) = filter P ys"
  by (induction ys) auto

lemma filter_place_first:
  "P x \<Longrightarrow> \<forall>y\<in>set ys. P y \<longrightarrow> cmp x y \<le> 0 \<Longrightarrow> filter P (place cmp x ys) = x # filter P ys"
  by (induction ys) auto

lemma consistent_equal:
  assumes "consistent cmp xs" "a \<in> set xs" "b \<in> set xs"
  shows "cmp a b = 0 \<longleftrightarrow> cmp b a = 0"
proof -
  have "cmp a b < 0 \<longleftrightarrow> 0 < cmp b a" "cmp b a < 0 \<longleftrightarrow> 0 < cmp a b"
    using assms unfolding consistent_def by blast+
  then show ?thesis by linarith
qed

lemma js_sort_stable:
  assumes "consistent cmp xs" "k \<in> set xs"
  shows "filter (\<lambda>b. cmp k b = 0) (js_sort cmp xs) = filter (\<lambda>b. cmp k b = 0) xs"
proof -
  have "set ys \<subseteq> set xs \<Longrightarrow>
      filter (\<lambda>b. cmp k b = 0) (js_sort cmp ys) = filter (\<lambda>b. cmp k b = 0) ys" for ys
  proof (induction ys)
    case Nil
    show ?case by simp
  next
    case (Cons y ys)
    then have IH: "filter (\<lambda>b. cmp k b = 0) (js_sort cmp ys) = filter (\<lambda>b. cmp k b = 0) ys"
      and y: "y \<in> set xs" and ys: "set ys \<subseteq> set xs"
      by simp_all
    show ?case
    proof (cases "cmp k y = 0")
      case False
      with IH show ?thesis by (simp add: filter_place_other)
    next
      case True
      then have yk: "cmp y k \<le> 0"
        using consistent_equal [OF assms(1) assms(2) y] by simp
      have "cmp y z \<le> 0" if "z \<in> set (js_sort cmp ys)" "cmp k z = 0" for z
      proof -
        have "z \<in> set xs" using that(1) ys by (auto simp: set_js_sort)
        moreover have "cmp k z \<le> 0" using that(2) by simp
        ultimately show ?thesis
          using assms y yk unfolding consistent_def by blast
      qed
      then have "filter (\<lambda>b. cmp k b = 0) (place cmp y (js_sort cmp ys))
          = y # filter (\<lambda>b. cmp k b = 0) (js_sort cmp ys)"
        using True by (intro filter_place_first) auto
      with IH True show ?thesis by simp
    qed
  qed
  then show ?thesis by simp
qed

lemma consistent_refl:
  assumes "consistent cmp us" "a \<in> set us"
  shows "cmp a a = 0"
proof -
  have "cmp a a < 0 \<longleftrightarrow> 0 < cmp a a"
    using assms unfolding consistent_def by blast
  then show ?thesis by linarith
qed

lemma consistent_both:
  assumes "consistent cmp us" "a \<in> set us" "b \<in> set us" "cmp a b \<le> 0" "cmp b a \<le> 0"
  shows "cmp a b = 0"
proof -
  have "cmp a b < 0 \<longleftrightarrow> 0 < cmp b a"
    using assms(1-3) unfolding consistent_def by blast
  with assms(4,5) show ?thesis by linarith
qed

lemma sorted_stable_unique:
  assumes "consistent cmp us"
  shows "set ys \<subseteq> set us \<Longrightarrow> set zs \<subseteq> set us \<Longrightarrow>
     sorted_wrt (\<lambda>a b. cmp a b \<le> 0) ys \<Longrightarrow> sorted_wrt (\<lambda>a b. cmp a b \<le> 0) zs \<Longrightarrow>
     \<forall>k\<in>set us. filter (\<lambda>b. cmp k b = 0) ys = filter (\<lambda>b. cmp k b = 0) zs \<Longrightarrow> ys = zs"
proof (induction ys arbitrary: zs)
  case Nil
  show ?case
  proof (cases zs)
    case Nil
    then show ?thesis by simp
  next
    case (Cons z zs')
    with Nil.prems have "z \<in> set us" by simp
    then have "filter (\<lambda>b. cmp z b = 0) zs = []" "cmp z z = 0"
      using Nil.prems(5) consistent_refl [OF assms] by auto
    with Cons show ?thesis by simp
  qed
next
  case (Cons y ys)
  have y: "y \<in> set us" "cmp y y = 0"
    using Cons.prems(1) consistent_refl [OF assms] by auto
  have "filter (\<lambda>b. cmp y b = 0) (y # ys) = filter (\<lambda>b. cmp y b = 0) zs"
    using Cons.prems(5) y(1) by blast
  with y(2) have fy: "filter (\<lambda>b. cmp y b = 0) zs = y # filter (\<lambda>b. cmp y b = 0) ys"
    by simp
  then obtain z zs' where zs: "zs = z # zs'"
    by (cases zs) auto
  have z: "z \<in> set us" "cmp z z = 0"
    using Cons.prems(2) consistent_refl [OF assms] zs by auto
  have "filter (\<lambda>b. cmp z b = 0) (y # ys) = filter (\<lambda>b. cmp z b = 0) zs"
    using Cons.prems(5) z(1) by blast
  with z(2) zs
  have fz: "filter (\<lambda>b. cmp z b = 0) (y # ys) = z # filter (\<lambda>b. cmp z b = 0) zs'"
    by simp
  then have "z \<in> set (filter (\<lambda>b. cmp z b = 0) (y # ys))"
    by (simp only: list.set_intros)
  then have "z \<in> set (y # ys)"
    using filter_is_subset [of "\<lambda>b. cmp z b = 0" "y # ys"] by blast
  then have yz: "cmp y z \<le> 0"
    using Cons.prems(3) y(2) by auto
  have "y \<in> set (filter (\<lambda>b. cmp y b = 0) zs)"
    by (simp only: fy list.set_intros)
  then have "y \<in> set zs"
    using filter_is_subset [of "\<lambda>b. cmp y b = 0" zs] by blast
  then have zy: "cmp z y \<le> 0"
    using Cons.prems(4) z(2) zs by auto
  have eq: "cmp y z = 0"
    using consistent_both [OF assms y(1) z(1) yz zy] .
  with fy zs have "y = z" by simp
  moreover have "ys = zs'"
  proof (rule Cons.IH)
    show "set ys \<subseteq> set us" "set zs' \<subseteq> set us"
      using Cons.prems(1,2) zs by auto
    show "sorted_wrt (\<lambda>a b. cmp a b \<le> 0) ys" "sorted_wrt (\<lambda>a b. cmp a b \<le> 0) zs'"
      using Cons.prems(3,4) zs by auto
    show "\<forall>k\<in>set us. filter (\<lambda>b. cmp k b = 0) ys = filter (\<lambda>b. cmp k b = 0) zs'"
    proof
      fix k assume "k \<in> set us"
      then have "filter (\<lambda>b. cmp k b = 0) (y # ys) = filter (\<lambda>b. cmp k b = 0) (z # zs')"
        using Cons.prems(5) zs by simp
      with \<open>y = z\<close> show "filter (\<lambda>b. cmp k b = 0) ys = filter (\<lambda>b. cmp k b = 0) zs'"
        by (simp split: if_splits)
    qed
  qed
  ultimately show ?case using zs by simp
qed

text \<open>
  For a consistent comparator the sorted, stable arrangement of a list is unique: it is
  the one \<open>js_sort\<close> computes.
\<close>

lemma js_sort_unique:
  assumes "consistent cmp xs" and "set ys = set xs"
    and "sorted_wrt (\<lambda>a b. cmp a b \<le> 0) ys"
    and "\<forall>k\<in>set xs. filter (\<lambda>b. cmp k b = 0) ys = filter (\<lambda>b. cmp k b = 0) xs"
  shows "ys = js_sort cmp xs"
proof (rule sorted_stable_unique [OF assms(1)])
  show "set ys \<subseteq> set xs" "set (js_sort cmp xs) \<subseteq> set xs"
    using assms(2) by (simp_all add: set_js_sort)
  show "sorted_wrt (\<lambda>a b. cmp a b \<le> 0) ys" by fact
  show "sorted_wrt (\<lambda>a b. cmp a b \<le> 0) (js_sort cmp xs)"
    using assms(1) by (rule js_sort_sorted)
  show "\<forall>k\<in>set xs. filter (\<lambda>b. cmp k b = 0) ys = filter (\<lambda>b. cmp k b = 0) (js_sort cmp xs)"
    using assms(4) js_sort_stable [OF assms(1)] by simp
qed


lemma conforming_unique:
  assumes "conforming srt" and "consistent cmp xs"
  shows "srt cmp xs = js_sort cmp xs"
proof (rule js_sort_unique [OF assms(2)])
  have "mset (srt cmp xs) = mset xs"
    using assms(1) unfolding conforming_def by blast
  then show "set (srt cmp xs) = set xs"
    by (metis set_mset_mset)
  show "sorted_wrt (\<lambda>a b. cmp a b \<le> 0) (srt cmp xs)"
    using assms unfolding conforming_def by blast
  show "\<forall>k\<in>set xs. filter (\<lambda>b. cmp k b = 0) (srt cmp xs) = filter (\<lambda>b. cmp k b = 0) xs"
    using assms unfolding conforming_def by blast
qed









end
